theory Spec2Isabelle
  imports Main "HOL-Library.Multiset"
begin

section \<open>Link extraction: \<open>get_links_from_page_text\<close> (lines 28-58)\<close>

text \<open>
  \<open>urlparse\<close> and BeautifulSoup are library code. The result of \<open>urlparse(page_url)\<close> is
  a record with the two fields the function reads; the function that computes it is a
  parameter. The parsed page is the sequence of the values of \<open>link.get('href')\<close> over
  \<open>bs_page.findAll('a')\<close>, in document order: \<open>None\<close> for an anchor without the
  attribute, \<open>Some\<close> of the attribute's text otherwise.
\<close>

record parsed_url =
  scheme :: string
  netloc :: string

text \<open>
  The body of the \<open>for\<close> loop (lines 46-57), with the list \<open>links\<close> as accumulator.
  Python's slice \<open>path_or_url[0:3]\<close> is \<open>take 3\<close>; the index \<open>path_or_url[0]\<close> is read
  only after the length check.
\<close>

fun links_loop :: "string \<Rightarrow> string option list \<Rightarrow> string list \<Rightarrow> string list" where
  "links_loop pathless_url [] links = links"
| "links_loop pathless_url (None # rest) links = links_loop pathless_url rest links"
| "links_loop pathless_url (Some path_or_url # rest) links =
     (if length path_or_url = 0 then links_loop pathless_url rest links
      else if path_or_url ! 0 = CHR ''/'' then
        links_loop pathless_url rest (links @ [pathless_url @ path_or_url])
      else if take 3 path_or_url = ''http'' then
        links_loop pathless_url rest (links @ [path_or_url])
      else links_loop pathless_url rest links)"

definition get_links_from_page_text ::
  "(string \<Rightarrow> parsed_url) \<Rightarrow> string \<Rightarrow> string option list \<Rightarrow> string list" where
  "get_links_from_page_text urlparse page_url anchors =
     (let parsed = urlparse page_url;
          pathless_url = scheme parsed @ ''://'' @ netloc parsed
      in links_loop pathless_url anchors [])"


section \<open>The worker: \<open>get_and_process_url\<close> (lines 61-126)\<close>

subsection \<open>The world outside the program\<close>

text \<open>
  What the library calls answer is a parameter of the model. \<open>urllib.request.Request\<close>
  (line 95, outside the \<open>try\<close>) may raise; \<open>urlopen\<close>, \<open>read\<close>, \<open>decode\<close> and the
  parsing inside \<open>get_links_from_page_text\<close> (lines 97-100, inside the \<open>try\<close>) may raise
  or yield the page's anchors; \<open>print\<close> (lines 114 and 116, inside the \<open>try\<close>) may raise
  on a line it cannot encode.
\<close>

datatype fetched = FetchError | DecodeError | ParseError | Anchors "string option list"

record world =
  request_raises :: "string \<Rightarrow> bool"
  urlopen :: "string \<Rightarrow> fetched"
  parse_url :: "string \<Rightarrow> parsed_url"
  print_raises :: "string \<Rightarrow> bool"

subsection \<open>Program points and the shared state\<close>

text \<open>
  One worker thread is at one of these points. A point carries the thread's local
  variables \<open>page_url\<close> and \<open>page_links\<close> where they are live. A step of a thread is
  one lock operation, a stretch of a critical section, or a stretch of code outside the
  locks. The counter \<open>g_num_threads_processing\<close> is written outside the lock by line 81,
  so every \<open>+= 1\<close> and \<open>-= 1\<close> on it is two steps: the read of the counter, which the
  point after it carries, and the write of the value computed from what was read.
\<close>

datatype pc =
    Acquire                               \<comment> \<open>line 74, before \<open>acquire\<close>\<close>
  | Check                                 \<comment> \<open>lines 75-92, top of the inner loop, lock held\<close>
  | Waiting                               \<comment> \<open>line 92, inside \<open>wait\<close>, lock released, not notified\<close>
  | Woken                                 \<comment> \<open>line 92, inside \<open>wait\<close>, notified, taking the lock back\<close>
  | Incr string                           \<comment> \<open>line 81, after the release of line 80, before the read\<close>
  | Incr_store string int                 \<comment> \<open>line 81, the counter read, before the write\<close>
  | Fetch string                          \<comment> \<open>lines 95-100\<close>
  | Publish_acquire string "string list"  \<comment> \<open>line 102\<close>
  | Publish string "string list"          \<comment> \<open>lines 103-110 up to the read of the counter, lock held\<close>
  | Publish_store string "string list" int  \<comment> \<open>line 110, the counter read, before the write; line 111\<close>
  | Print_acquire string "string list"    \<comment> \<open>line 113\<close>
  | Print string "string list"            \<comment> \<open>lines 114-117, semaphore held\<close>
  | Except_acquire                        \<comment> \<open>line 124\<close>
  | Except                                \<comment> \<open>line 125 up to the read of the counter, lock held\<close>
  | Except_store int                      \<comment> \<open>line 125, the counter read, before the write; line 126\<close>
  | Finished                              \<comment> \<open>returned at line 85 or 90\<close>
  | Crashed                               \<comment> \<open>ended by the uncaught exception of line 95\<close>

text \<open>
  \<open>trace\<close> is a history variable: the steps append to it and never read it. It records
  each \<open>pop(0)\<close> of line 78, each call of \<open>urlopen\<close> of line 97 and each \<open>notify_all\<close>
  of lines 88 and 108, with the thread that did it.
\<close>

datatype event = Dequeue nat string | Urlopen nat string | Notify_all nat

record state =
  g_urls_to_be_processed :: "string list"
  g_urls_already_processed :: "string list"
  g_num_threads_processing :: int
  g_all_done :: bool
  g_url_condition_lock :: "nat option"   \<comment> \<open>the thread that holds the lock, if any\<close>
  g_print_lock :: nat                    \<comment> \<open>the semaphore's counter\<close>
  threads :: "pc list"
  stdout :: "string list"                \<comment> \<open>the lines printed so far\<close>
  trace :: "event list"

text \<open>\<open>main\<close> (lines 130-152): the starting URL is queued and \<open>num_threads\<close> workers start.\<close>

definition init :: "nat \<Rightarrow> string \<Rightarrow> state" where
  "init num_threads starting_url =
     \<lparr>g_urls_to_be_processed = [starting_url],
      g_urls_already_processed = [],
      g_num_threads_processing = 0,
      g_all_done = False,
      g_url_condition_lock = None,
      g_print_lock = 1,
      threads = replicate num_threads Acquire,
      stdout = [],
      trace = []\<rparr>"

subsection \<open>The steps\<close>

text \<open>\<open>notify_all\<close> moves every thread inside \<open>wait\<close> to the point where it takes the lock back.\<close>

definition notify_all :: "pc list \<Rightarrow> pc list" where
  "notify_all ps = map (\<lambda>p. if p = Waiting then Woken else p) ps"

text \<open>Taking the condition's lock (lines 74, 102, 124 and the return from \<open>wait\<close>): blocked while held.\<close>

definition acquire :: "nat \<Rightarrow> pc \<Rightarrow> state \<Rightarrow> state option" where
  "acquire t next_pc s =
     (if g_url_condition_lock s = None
      then Some (s\<lparr>g_url_condition_lock := Some t, threads := (threads s)[t := next_pc]\<rparr>)
      else None)"

text \<open>
  Lines 77-92: one pass through the body of the inner loop, by the thread holding the
  lock. The first branch ends with the release of line 80; the increment of line 81
  comes in the next two steps of the thread.
\<close>

definition check :: "nat \<Rightarrow> state \<Rightarrow> state" where
  "check t s =
     (case g_urls_to_be_processed s of
        page_url # rest \<Rightarrow>
          s\<lparr>g_urls_to_be_processed := rest,
            g_urls_already_processed := g_urls_already_processed s @ [page_url],
            g_url_condition_lock := None,
            threads := (threads s)[t := Incr page_url],
            trace := trace s @ [Dequeue t page_url]\<rparr>
      | [] \<Rightarrow>
          if g_all_done s then
            s\<lparr>g_url_condition_lock := None, threads := (threads s)[t := Finished]\<rparr>
          else if g_num_threads_processing s = 0 then
            s\<lparr>g_all_done := True,
              g_url_condition_lock := None,
              threads := (notify_all (threads s))[t := Finished],
              trace := trace s @ [Notify_all t]\<rparr>
          else
            s\<lparr>g_url_condition_lock := None, threads := (threads s)[t := Waiting]\<rparr>)"

text \<open>Lines 103-105: the loop over \<open>page_links\<close>.\<close>

fun add_links :: "string list \<Rightarrow> string list \<Rightarrow> string list \<Rightarrow> string list" where
  "add_links [] already to_be = to_be"
| "add_links (link # rest) already to_be =
     (if link \<notin> set already \<and> link \<notin> set to_be
      then add_links rest already (to_be @ [link])
      else add_links rest already to_be)"

text \<open>
  Lines 103-108 and the read of the counter of line 110, by the thread holding the lock.
  The write of line 110 and the release of line 111 are the next step of the thread.
\<close>

definition publish :: "nat \<Rightarrow> string \<Rightarrow> string list \<Rightarrow> state \<Rightarrow> state" where
  "publish t page_url page_links s =
     (let to_be = add_links page_links (g_urls_already_processed s) (g_urls_to_be_processed s);
          notified = (0 < length to_be)
      in s\<lparr>g_urls_to_be_processed := to_be,
           threads := (if notified then notify_all (threads s) else threads s)
                        [t := Publish_store page_url page_links (g_num_threads_processing s)],
           trace := trace s @ (if notified then [Notify_all t] else [])\<rparr>)"

text \<open>
  Lines 114-117: the lines of one page. A line that \<open>print\<close> cannot write raises inside
  the \<open>try\<close>: the lines before it are written, the semaphore is not released, and the
  thread goes to the handler of line 118.
\<close>

definition page_block :: "string \<Rightarrow> string list \<Rightarrow> string list" where
  "page_block page_url page_links = page_url # map (\<lambda>link. ''  '' @ link) page_links"

definition print_block :: "world \<Rightarrow> nat \<Rightarrow> string \<Rightarrow> string list \<Rightarrow> state \<Rightarrow> state" where
  "print_block w t page_url page_links s =
     (let lines = page_block page_url page_links;
          written = takeWhile (\<lambda>l. \<not> print_raises w l) lines
      in if length written = length lines
         then s\<lparr>stdout := stdout s @ lines,
                g_print_lock := g_print_lock s + 1,
                threads := (threads s)[t := Acquire]\<rparr>
         else s\<lparr>stdout := stdout s @ written,
                threads := (threads s)[t := Except_acquire]\<rparr>)"

text \<open>Lines 95-100: the request, the fetch and the extraction of the links.\<close>

definition fetch :: "world \<Rightarrow> nat \<Rightarrow> string \<Rightarrow> state \<Rightarrow> state" where
  "fetch w t page_url s =
     (if request_raises w page_url then s\<lparr>threads := (threads s)[t := Crashed]\<rparr>
      else case urlopen w page_url of
        Anchors anchors \<Rightarrow>
          s\<lparr>threads := (threads s)
               [t := Publish_acquire page_url
                       (get_links_from_page_text (parse_url w) page_url anchors)],
            trace := trace s @ [Urlopen t page_url]\<rparr>
      | _ \<Rightarrow>
          s\<lparr>threads := (threads s)[t := Except_acquire],
            trace := trace s @ [Urlopen t page_url]\<rparr>)"

text \<open>
  One step of thread \<open>t\<close>; \<open>None\<close> when the thread does not exist, is blocked or has
  ended.
\<close>

definition step :: "world \<Rightarrow> nat \<Rightarrow> state \<Rightarrow> state option" where
  "step w t s =
     (if length (threads s) \<le> t then None
      else case threads s ! t of
        Acquire \<Rightarrow> acquire t Check s
      | Check \<Rightarrow> Some (check t s)
      | Waiting \<Rightarrow> None
      | Woken \<Rightarrow> acquire t Check s
      | Incr page_url \<Rightarrow>
          Some (s\<lparr>threads := (threads s)
                         [t := Incr_store page_url (g_num_threads_processing s)]\<rparr>)
      | Incr_store page_url seen \<Rightarrow>
          Some (s\<lparr>g_num_threads_processing := seen + 1,
                  threads := (threads s)[t := Fetch page_url]\<rparr>)
      | Fetch page_url \<Rightarrow> Some (fetch w t page_url s)
      | Publish_acquire page_url page_links \<Rightarrow> acquire t (Publish page_url page_links) s
      | Publish page_url page_links \<Rightarrow> Some (publish t page_url page_links s)
      | Publish_store page_url page_links seen \<Rightarrow>
          Some (s\<lparr>g_num_threads_processing := seen - 1,
                  g_url_condition_lock := None,
                  threads := (threads s)[t := Print_acquire page_url page_links]\<rparr>)
      | Print_acquire page_url page_links \<Rightarrow>
          (if 0 < g_print_lock s
           then Some (s\<lparr>g_print_lock := g_print_lock s - 1,
                        threads := (threads s)[t := Print page_url page_links]\<rparr>)
           else None)
      | Print page_url page_links \<Rightarrow> Some (print_block w t page_url page_links s)
      | Except_acquire \<Rightarrow> acquire t Except s
      | Except \<Rightarrow>
          Some (s\<lparr>threads := (threads s)[t := Except_store (g_num_threads_processing s)]\<rparr>)
      | Except_store seen \<Rightarrow>
          Some (s\<lparr>g_num_threads_processing := seen - 1,
                  g_url_condition_lock := None,
                  threads := (threads s)[t := Acquire]\<rparr>)
      | Finished \<Rightarrow> None
      | Crashed \<Rightarrow> None)"

text \<open>A run under a schedule: the list of the threads that step, in order.\<close>

fun run :: "world \<Rightarrow> nat list \<Rightarrow> state \<Rightarrow> state option" where
  "run w [] s = Some s"
| "run w (t # sched) s = (case step w t s of None \<Rightarrow> None | Some s' \<Rightarrow> run w sched s')"

text \<open>What the trace records.\<close>

fun dequeued :: "event list \<Rightarrow> string list" where
  "dequeued [] = []"
| "dequeued (Dequeue t u # es) = u # dequeued es"
| "dequeued (e # es) = dequeued es"

fun opened :: "event list \<Rightarrow> string list" where
  "opened [] = []"
| "opened (Urlopen t u # es) = u # opened es"
| "opened (e # es) = opened es"

fun notifications :: "event list \<Rightarrow> nat" where
  "notifications [] = 0"
| "notifications (Notify_all t # es) = Suc (notifications es)"
| "notifications (e # es) = notifications es"

section \<open>Notions the properties are stated with\<close>

text \<open>
  The spec's names for the shared fields: \<open>pending\<close> is \<open>g_urls_to_be_processed\<close>,
  \<open>visited\<close> is \<open>g_urls_already_processed\<close> (a list in the code, appended to at every
  dequeue), \<open>active_count\<close> is \<open>g_num_threads_processing\<close> and \<open>done\<close> is \<open>g_all_done\<close>.
\<close>

definition queue_inv :: "state \<Rightarrow> bool" where
  "queue_inv s \<longleftrightarrow>
     distinct (g_urls_to_be_processed s) \<and> distinct (g_urls_already_processed s) \<and>
     set (g_urls_to_be_processed s) \<inter> set (g_urls_already_processed s) = {}"

text \<open>The URL a thread has dequeued and not yet handed to \<open>urlopen\<close>.\<close>

fun holds_url :: "pc \<Rightarrow> string list" where
  "holds_url (Incr u) = [u]"
| "holds_url (Incr_store u seen) = [u]"
| "holds_url (Fetch u) = [u]"
| "holds_url p = []"

definition unfetched :: "pc list \<Rightarrow> string list" where
  "unfetched ps = concat (map holds_url ps)"

text \<open>
  Every fetch is the fetch of a URL that was dequeued, counted with multiplicity: the
  URLs handed to \<open>urlopen\<close> so far, with those still held for it, are among the
  dequeued ones.
\<close>

definition fetch_inv :: "state \<Rightarrow> bool" where
  "fetch_inv s \<longleftrightarrow>
     mset (opened (trace s)) + mset (unfetched (threads s))
       \<subseteq># mset (g_urls_already_processed s)"

text \<open>
  A thread that has dequeued a URL and is not yet back at the top of the outer loop
  (line 74); a crashed thread never gets back there.
\<close>

fun off_queue :: "pc \<Rightarrow> bool" where
  "off_queue Acquire = False"
| "off_queue Check = False"
| "off_queue Waiting = False"
| "off_queue Woken = False"
| "off_queue Finished = False"
| "off_queue p = True"

text \<open>
  The invariant on \<open>active_count\<close> as the spec words it: never negative, and equal to
  the number of workers that have dequeued a URL and are not yet back at the claim.
\<close>

definition active_count_as_stated :: "state \<Rightarrow> bool" where
  "active_count_as_stated s \<longleftrightarrow>
     0 \<le> g_num_threads_processing s \<and>
     g_num_threads_processing s = int (length (filter off_queue (threads s)))"

text \<open>No thread is inside \<open>wait\<close>, not yet notified, while the queue holds a URL.\<close>

definition waiting_inv :: "state \<Rightarrow> bool" where
  "waiting_inv s \<longleftrightarrow> Waiting \<notin> set (threads s) \<or> g_urls_to_be_processed s = []"

text \<open>A thread inside one of the three critical sections holds the lock.\<close>

fun in_section :: "pc \<Rightarrow> bool" where
  "in_section Check = True"
| "in_section (Publish u ls) = True"
| "in_section (Publish_store u ls seen) = True"
| "in_section Except = True"
| "in_section (Except_store seen) = True"
| "in_section p = False"

definition lock_inv :: "state \<Rightarrow> bool" where
  "lock_inv s \<longleftrightarrow>
     (\<forall>t < length (threads s). in_section (threads s ! t) \<longrightarrow> g_url_condition_lock s = Some t)"

text \<open>The frontier: the four shared fields the condition's lock is there to guard.\<close>

definition frontier :: "state \<Rightarrow> string list \<times> string list \<times> int \<times> bool" where
  "frontier s =
     (g_urls_to_be_processed s, g_urls_already_processed s, g_num_threads_processing s,
      g_all_done s)"

subsection \<open>A small site to run the program on\<close>

text \<open>
  Three pages on one host. Page \<open>/a\<close> links to \<open>/b\<close>; page \<open>/b\<close> links to \<open>/a\<close> and
  \<open>/c\<close>; page \<open>/c\<close> has no anchor. \<open>urlparse\<close> on a URL of the host gives scheme
  \<open>http\<close> and netloc \<open>h\<close>.
\<close>

definition urlparse_h :: "string \<Rightarrow> parsed_url" where
  "urlparse_h u =
     (if take 9 u = ''http://h/'' then \<lparr>scheme = ''http'', netloc = ''h''\<rparr>
      else \<lparr>scheme = [], netloc = []\<rparr>)"

definition chain_site :: world where
  "chain_site =
     \<lparr>request_raises = (\<lambda>u. False),
      urlopen = (\<lambda>u. if u = ''http://h/a'' then Anchors [Some ''/b'']
                      else if u = ''http://h/b'' then Anchors [Some ''/a'', Some ''/c'']
                      else if u = ''http://h/c'' then Anchors []
                      else FetchError),
      parse_url = urlparse_h,
      print_raises = (\<lambda>l. False)\<rparr>"

text \<open>Page \<open>/a\<close> links to \<open>/b\<close> and \<open>/c\<close>, which have no anchors.\<close>

definition fork_site :: world where
  "fork_site =
     \<lparr>request_raises = (\<lambda>u. False),
      urlopen = (\<lambda>u. if u = ''http://h/a'' then Anchors [Some ''/b'', Some ''/c'']
                      else if u = ''http://h/b'' then Anchors []
                      else if u = ''http://h/c'' then Anchors []
                      else FetchError),
      parse_url = urlparse_h,
      print_raises = (\<lambda>l. False)\<rparr>"

text \<open>
  A starting URL without a scheme: \<open>urllib.request.Request\<close> raises \<open>ValueError\<close>
  (unknown url type) on a URL that has no colon.
\<close>

definition no_scheme_site :: world where
  "no_scheme_site =
     \<lparr>request_raises = (\<lambda>u. CHR '':'' \<notin> set u),
      urlopen = (\<lambda>u. FetchError),
      parse_url = urlparse_h,
      print_raises = (\<lambda>l. False)\<rparr>"

text \<open>
  The three-page site seen through a standard output that cannot encode the line of the
  link to \<open>/b\<close>: \<open>print\<close> raises \<open>UnicodeEncodeError\<close> on it.
\<close>

definition unprintable_link_site :: world where
  "unprintable_link_site = chain_site\<lparr>print_raises := (\<lambda>l. l = ''  http://h/b'')\<rparr>"

text \<open>
  A schedule of two workers on the site where \<open>/a\<close> links to \<open>/b\<close> and \<open>/c\<close>. Worker 0
  processes \<open>/a\<close>, claims \<open>/b\<close> and counts itself; worker 1 claims \<open>/c\<close> and reads the
  counter for its increment of line 81; worker 0 fetches and publishes, which takes the
  counter down; worker 1 then writes what it computed from its stale read. Both go on to
  the end of their pages and claim again.
\<close>

definition lost_update_prefix :: "nat list" where
  "lost_update_prefix =
     replicate 10 0 @ [0, 0, 0, 0] @ [1, 1, 1] @ [0, 0, 0, 0] @ [1]"

definition lost_update_schedule :: "nat list" where
  "lost_update_schedule =
     lost_update_prefix @ [0, 0] @ [1, 1, 1, 1, 1, 1] @ [0, 0] @ [1, 1]"

section \<open>Properties of the link extraction\<close>

lemma take3_not_http: "take 3 p \<noteq> ''http''"
proof
  assume "take 3 p = ''http''"
  then have "length (take 3 p) = length ''http''" by (rule arg_cong)
  then show False by simp
qed

lemma links_loop_acc: "links_loop p anchors acc = acc @ links_loop p anchors []"
proof (induction anchors arbitrary: acc)
  case Nil
  show ?case by simp
next
  case (Cons a rest)
  show ?case
  proof (cases a)
    case None
    then show ?thesis using Cons.IH[of acc] by simp
  next
    case (Some h)
    have grow: "links_loop p rest (acc @ [x]) = acc @ links_loop p rest [x]" for x
      using Cons.IH[of "acc @ [x]"] Cons.IH[of "[x]"] by simp
    show ?thesis using Some Cons.IH[of acc] grow by (simp add: take3_not_http)
  qed
qed

lemma links_loop_one: "links_loop p zs [x] = x # links_loop p zs []"
  using links_loop_acc[of p zs "[x]"] by simp

lemma links_loop_append:
  "links_loop p (xs @ ys) [] = links_loop p xs [] @ links_loop p ys []"
proof (induction xs)
  case Nil
  show ?case by simp
next
  case (Cons a xs)
  show ?case
  proof (cases a)
    case None
    then show ?thesis using Cons.IH by simp
  next
    case (Some h)
    show ?thesis using Some Cons.IH by (simp add: links_loop_one take3_not_http)
  qed
qed

lemma links_loop_root_relative:
  "links_loop p (before @ [Some (CHR ''/'' # rest)] @ after) [] =
     links_loop p before [] @ [p @ CHR ''/'' # rest] @ links_loop p after []"
  by (simp add: links_loop_append links_loop_one)

text \<open>
  C6, on the code: an href that is already absolute is meant to pass through unchanged
  (the branch of lines 52-54), but the test of line 52 compares the three characters of
  \<open>path_or_url[0:3]\<close> with the four of \<open>"http"\<close>, so the branch is never taken: every
  href that starts with \<open>http\<close> is dropped, whatever follows it.
\<close>

theorem absolute_href_dropped:
  "get_links_from_page_text up page_url [Some (''http'' @ rest)] = []"
  by (simp add: get_links_from_page_text_def Let_def)

text \<open>
  C10: every href that begins with \<open>/\<close>, wherever it stands among the anchors of the
  page, yields the page's \<open>scheme://netloc\<close> followed by the whole href, in its place
  among the links of the anchors before and after it. A protocol-relative href
  \<open>//host/path\<close> is such an href, so it yields \<open>scheme://netloc//host/path\<close>.
\<close>

theorem root_relative_prefixed:
  "get_links_from_page_text up page_url (before @ [Some (CHR ''/'' # rest)] @ after) =
     get_links_from_page_text up page_url before
     @ [scheme (up page_url) @ ''://'' @ netloc (up page_url) @ CHR ''/'' # rest]
     @ get_links_from_page_text up page_url after"
  unfolding get_links_from_page_text_def Let_def
  using links_loop_root_relative
    [of "scheme (up page_url) @ ''://'' @ netloc (up page_url)" before rest after]
  by simp

section \<open>Runs and invariants\<close>

lemma run_invariant:
  assumes "run w sched s = Some s'" and "P s"
    and "\<And>t a b. P a \<Longrightarrow> step w t a = Some b \<Longrightarrow> P b"
  shows "P s'"
  using assms(1,2)
proof (induction sched arbitrary: s)
  case Nil
  then show ?case by simp
next
  case (Cons t sched)
  then obtain m where m: "step w t s = Some m" and r: "run w sched m = Some s'"
    by (auto split: option.splits)
  show ?case using Cons.IH[OF r assms(3)[OF Cons.prems(2) m]] .
qed

lemma run_append:
  "run w (xs @ ys) s = (case run w xs s of None \<Rightarrow> None | Some m \<Rightarrow> run w ys m)"
  by (induction xs arbitrary: s) (auto split: option.splits)

lemma step_thread_exists: "step w t s = Some s' \<Longrightarrow> t < length (threads s)"
  by (simp add: step_def split: if_splits)

subsection \<open>The queue and the list of processed URLs\<close>

lemma add_links_set: "set (add_links ls a p) = set p \<union> (set ls - set a)"
  by (induction ls arbitrary: p) auto

lemma add_links_distinct: "distinct p \<Longrightarrow> distinct (add_links ls a p)"
  by (induction ls arbitrary: p) auto

lemma add_links_append:
  "add_links (xs @ ys) a p = add_links ys a (add_links xs a p)"
  by (induction xs arbitrary: p) auto

lemma add_links_new:
  "\<exists>new. add_links ls a p = p @ new \<and> distinct new \<and>
          set new = {l \<in> set ls. l \<notin> set a \<and> l \<notin> set p}"
proof (induction ls arbitrary: p)
  case Nil
  show ?case by simp
next
  case (Cons l ls)
  show ?case
  proof (cases "l \<notin> set a \<and> l \<notin> set p")
    case True
    obtain new where n: "add_links ls a (p @ [l]) = (p @ [l]) @ new" "distinct new"
      "set new = {x \<in> set ls. x \<notin> set a \<and> x \<notin> set (p @ [l])}"
      using Cons.IH[of "p @ [l]"] by blast
    have "add_links (l # ls) a p = p @ (l # new)" using True n(1) by simp
    moreover have "distinct (l # new)" using n(2,3) by auto
    moreover have "set (l # new) = {x \<in> set (l # ls). x \<notin> set a \<and> x \<notin> set p}"
      using True n(3) by auto
    ultimately show ?thesis by blast
  next
    case False
    obtain new where n: "add_links ls a p = p @ new" "distinct new"
      "set new = {x \<in> set ls. x \<notin> set a \<and> x \<notin> set p}"
      using Cons.IH[of p] by blast
    have "add_links (l # ls) a p = p @ new" using False n(1) by auto
    moreover have "set new = {x \<in> set (l # ls). x \<notin> set a \<and> x \<notin> set p}"
      using False n(3) by auto
    ultimately show ?thesis using n(2) by blast
  qed
qed

lemma queue_inv_init: "queue_inv (init n start)"
  by (simp add: queue_inv_def init_def)

lemma queue_inv_step:
  assumes "queue_inv s" and "step w t s = Some s'"
  shows "queue_inv s'"
proof (cases "threads s ! t")
  case Check
  then show ?thesis using assms
    by (auto simp: step_def check_def queue_inv_def split: if_splits list.splits)
next
  case (Publish u ls)
  then show ?thesis using assms
    by (auto simp: step_def publish_def queue_inv_def Let_def add_links_set add_links_distinct
        split: if_splits)
qed (use assms in \<open>auto simp: step_def acquire_def fetch_def print_block_def queue_inv_def Let_def
       split: if_splits fetched.splits\<close>)

lemma queue_inv_run: "run w sched (init n start) = Some s \<Longrightarrow> queue_inv s"
  by (rule run_invariant[where P = queue_inv]) (auto intro: queue_inv_init queue_inv_step)

lemma processed_grows_step:
  assumes "step w t s = Some s'"
  shows "set (g_urls_already_processed s) \<subseteq> set (g_urls_already_processed s')"
proof (cases "threads s ! t")
  case Check
  then show ?thesis using assms
    by (auto simp: step_def check_def split: if_splits list.splits)
qed (use assms in \<open>auto simp: step_def acquire_def fetch_def print_block_def publish_def Let_def
       split: if_splits fetched.splits\<close>)

lemma processed_grows_run:
  assumes "run w sched s = Some s'"
  shows "set (g_urls_already_processed s) \<subseteq> set (g_urls_already_processed s')"
  by (rule run_invariant[OF assms, where P = "\<lambda>x. set (g_urls_already_processed s) \<subseteq> set (g_urls_already_processed x)"])
     (use processed_grows_step in blast)+

subsection \<open>The trace of dequeues and fetches\<close>

lemma dequeued_append: "dequeued (xs @ ys) = dequeued xs @ dequeued ys"
  by (induction xs rule: dequeued.induct) auto

lemma opened_append: "opened (xs @ ys) = opened xs @ opened ys"
  by (induction xs rule: opened.induct) auto

lemma notifications_append: "notifications (xs @ ys) = notifications xs + notifications ys"
  by (induction xs rule: notifications.induct) auto

lemma dequeued_step:
  assumes "dequeued (trace s) = g_urls_already_processed s" and "step w t s = Some s'"
  shows "dequeued (trace s') = g_urls_already_processed s'"
proof (cases "threads s ! t")
  case Check
  then show ?thesis using assms
    by (auto simp: step_def check_def dequeued_append split: if_splits list.splits)
qed (use assms in \<open>auto simp: step_def acquire_def fetch_def print_block_def publish_def Let_def
       dequeued_append split: if_splits fetched.splits\<close>)

lemma dequeued_run:
  "run w sched (init n start) = Some s \<Longrightarrow> dequeued (trace s) = g_urls_already_processed s"
  by (rule run_invariant[where P = "\<lambda>x. dequeued (trace x) = g_urls_already_processed x"])
     (auto simp: init_def intro: dequeued_step)

lemma unfetched_update:
  "t < length ps \<Longrightarrow>
     mset (unfetched (ps[t := q])) + mset (holds_url (ps ! t)) = mset (unfetched ps) + mset (holds_url q)"
  unfolding unfetched_def
proof (induction ps arbitrary: t)
  case Nil
  then show ?case by simp
next
  case (Cons p ps)
  show ?case
  proof (cases t)
    case 0
    then show ?thesis by simp
  next
    case (Suc k)
    then have "k < length ps" using Cons.prems by simp
    from Cons.IH[OF this] show ?thesis using Suc by (simp add: ac_simps)
  qed
qed

lemma unfetched_notify_all: "unfetched (notify_all ps) = unfetched ps"
  unfolding unfetched_def notify_all_def by (induction ps) auto

lemma length_notify_all: "length (notify_all ps) = length ps"
  by (simp add: notify_all_def)

lemma nth_notify_all:
  "t < length ps \<Longrightarrow> notify_all ps ! t = (if ps ! t = Waiting then Woken else ps ! t)"
  by (simp add: notify_all_def)

lemma unfetched_same:
  assumes "t < length ps" and "holds_url (ps ! t) = holds_url q"
  shows "mset (unfetched (ps[t := q])) = mset (unfetched ps)"
  using unfetched_update[OF assms(1), of q] assms(2) by simp

lemma fetch_inv_init: "fetch_inv (init n start)"
  by (simp add: fetch_inv_def init_def unfetched_def)

lemma unfetched_notify_same:
  assumes "t < length ps" and "holds_url (ps ! t) = holds_url q"
  shows "mset (unfetched ((notify_all ps)[t := q])) = mset (unfetched ps)"
proof -
  have "holds_url (notify_all ps ! t) = holds_url q"
    using assms by (cases "ps ! t") (simp_all add: nth_notify_all)
  then show ?thesis
    using unfetched_same[of t "notify_all ps" q] assms(1)
    by (simp add: length_notify_all unfetched_notify_all)
qed

lemma fetch_inv_step:
  assumes inv: "fetch_inv s" and st: "step w t s = Some s'"
  shows "fetch_inv s'"
proof -
  have t: "t < length (threads s)" using st by (rule step_thread_exists)
  note upd = unfetched_update[OF t]
  note same = unfetched_same[OF t]
  show ?thesis
  proof (cases "threads s ! t")
    case Check
    show ?thesis
    proof (cases "g_urls_to_be_processed s")
      case Nil
      then show ?thesis using Check inv st t
        by (auto simp: step_def check_def fetch_inv_def same unfetched_notify_all
            length_notify_all nth_notify_all unfetched_same opened_append)
    next
      case (Cons u rest)
      have "mset (unfetched ((threads s)[t := Incr u])) = mset (unfetched (threads s)) + {#u#}"
        using upd[of "Incr u"] Check by simp
      then show ?thesis using Check Cons inv st t
        by (auto simp: step_def check_def fetch_inv_def opened_append)
    qed
  next
    case (Fetch u)
    have drop: "mset (unfetched ((threads s)[t := q])) + {#u#} = mset (unfetched (threads s))"
      if "holds_url q = []" for q
      using upd[of q] Fetch that by simp
    have a: "mset (opened (trace s)) + (mset (unfetched ((threads s)[t := q])) + {#u#})
               \<subseteq># mset (g_urls_already_processed s)" if "holds_url q = []" for q
      using inv drop[OF that] by (simp add: fetch_inv_def)
    have b: "mset (opened (trace s)) + mset (unfetched ((threads s)[t := q]))
               \<subseteq># mset (g_urls_already_processed s)" if "holds_url q = []" for q
      using a[OF that] by (meson mset_subset_eq_add_left subset_mset.order_trans subset_mset.add_left_mono)
    show ?thesis using Fetch st a b t
      by (auto simp: step_def fetch_def fetch_inv_def opened_append ac_simps split: if_splits fetched.splits)
  next
    case (Publish u ls)
    then show ?thesis using inv st t
      by (auto simp: step_def publish_def fetch_inv_def Let_def opened_append same
          unfetched_notify_same)
  next
    case (Incr u)
    then show ?thesis using inv st t
      by (auto simp: step_def fetch_inv_def same)
  qed (use inv st t in \<open>auto simp: step_def acquire_def print_block_def fetch_inv_def Let_def same
         split: if_splits\<close>)
qed

lemma fetch_inv_run: "run w sched (init n start) = Some s \<Longrightarrow> fetch_inv s"
  by (rule run_invariant[where P = fetch_inv]) (auto intro: fetch_inv_init fetch_inv_step)

lemma distinct_sub_mset:
  assumes "mset xs \<subseteq># mset ys" and "distinct ys"
  shows "distinct xs"
proof -
  have le: "count (mset xs) a \<le> 1" for a
  proof -
    have "count (mset xs) a \<le> count (mset ys) a"
      using assms(1) by (rule mset_subset_eq_count)
    also have "\<dots> \<le> 1" using assms(2) by (simp add: distinct_count_atmost_1)
    finally show ?thesis .
  qed
  have "count (mset xs) a = (if a \<in> set xs then 1 else 0)" for a
  proof (cases "a \<in> set xs")
    case True
    then have ge: "1 \<le> count (mset xs) a" by simp
    show ?thesis using True order_antisym[OF le[of a] ge] by simp
  next
    case False
    then show ?thesis by (simp add: count_eq_zero_iff)
  qed
  then show ?thesis by (simp add: distinct_count_atmost_1)
qed

subsection \<open>The waiting threads\<close>

lemma takeWhile_all: "takeWhile (\<lambda>l. True) ls = ls"
  by (induction ls) auto

lemma waiting_inv_init: "waiting_inv (init n start)"
  by (simp add: waiting_inv_def init_def)

lemma no_waiting_notify_all: "Waiting \<notin> set (notify_all ps)"
  by (auto simp: notify_all_def)

lemma waiting_update:
  "Waiting \<in> set (ps[t := q]) \<Longrightarrow> q \<noteq> Waiting \<Longrightarrow> Waiting \<in> set ps"
  using set_update_subset_insert[of ps t q] by auto

lemma waiting_inv_step:
  assumes inv: "waiting_inv s" and st: "step w t s = Some s'"
  shows "waiting_inv s'"
proof (cases "threads s ! t")
  case Check
  then show ?thesis using inv st
    by (auto simp: step_def check_def waiting_inv_def no_waiting_notify_all
        dest!: waiting_update split: if_splits list.splits)
next
  case (Publish u ls)
  then show ?thesis using inv st
    by (auto simp: step_def publish_def waiting_inv_def Let_def no_waiting_notify_all
        dest!: waiting_update split: if_splits)
qed (use inv st in \<open>auto simp: step_def acquire_def fetch_def print_block_def waiting_inv_def Let_def
       dest!: waiting_update split: if_splits fetched.splits\<close>)

lemma waiting_inv_run: "run w sched (init n start) = Some s \<Longrightarrow> waiting_inv s"
  by (rule run_invariant[where P = waiting_inv]) (auto intro: waiting_inv_init waiting_inv_step)

subsection \<open>The lock\<close>

lemma lock_inv_init: "lock_inv (init n start)"
  by (simp add: lock_inv_def init_def)

lemma in_section_notify_all:
  "t < length ps \<Longrightarrow> in_section (notify_all ps ! t) = in_section (ps ! t)"
  by (cases "ps ! t") (simp_all add: nth_notify_all)

lemma lock_inv_step:
  assumes inv: "lock_inv s" and st: "step w t s = Some s'"
  shows "lock_inv s'"
proof -
  have t: "t < length (threads s)" using st by (rule step_thread_exists)
  have held: "g_url_condition_lock s = Some t" if "in_section (threads s ! t)"
    using inv t that by (simp add: lock_inv_def)
  have others: "\<not> in_section (threads s ! j)"
    if "j < length (threads s)" "j \<noteq> t" "g_url_condition_lock s = None \<or> g_url_condition_lock s = Some t"
    for j using inv that by (auto simp: lock_inv_def)
  show ?thesis
  proof (cases "threads s ! t")
    case Check
    then show ?thesis using st t held others
      by (auto simp: step_def check_def lock_inv_def nth_list_update length_notify_all
          in_section_notify_all split: list.splits if_splits)
  next
    case (Publish u ls)
    then show ?thesis using st t held others
      by (auto simp: step_def publish_def lock_inv_def Let_def nth_list_update length_notify_all
          in_section_notify_all split: if_splits)
  next
    case (Fetch u)
    then show ?thesis using st t inv
      by (auto simp: step_def fetch_def lock_inv_def nth_list_update
          split: if_splits fetched.splits)
  next
    case Except
    then show ?thesis using st t held others
      by (auto simp: step_def lock_inv_def nth_list_update split: if_splits)
  next
    case (Print u ls)
    then show ?thesis using st t inv
      by (auto simp: step_def print_block_def lock_inv_def Let_def nth_list_update
          split: if_splits)
  qed (use st t inv others in \<open>auto simp: step_def acquire_def lock_inv_def nth_list_update
         split: if_splits\<close>)
qed

lemma lock_inv_run: "run w sched (init n start) = Some s \<Longrightarrow> lock_inv s"
  by (rule run_invariant[where P = lock_inv]) (auto intro: lock_inv_init lock_inv_step)

lemma frontier_mutation_sites:
  assumes "run w sched (init n start) = Some s" and st: "step w t s = Some s'"
    and ch: "frontier s' \<noteq> frontier s"
  shows "g_url_condition_lock s = Some t \<or> (\<exists>u seen. threads s ! t = Incr_store u seen)"
proof -
  have t: "t < length (threads s)" using st by (rule step_thread_exists)
  have inv: "lock_inv s" using assms(1) by (rule lock_inv_run)
  have held: "g_url_condition_lock s = Some t" if "in_section (threads s ! t)"
    using inv t that by (simp add: lock_inv_def)
  show ?thesis
  proof (cases "threads s ! t")
    case Check
    then show ?thesis using held by simp
  next
    case (Publish u ls)
    then show ?thesis using held by simp
  next
    case Except
    then show ?thesis using held by simp
  next
    case (Publish_store u ls seen)
    then show ?thesis using held by simp
  next
    case (Except_store seen)
    then show ?thesis using held by simp
  next
    case (Fetch u)
    then show ?thesis using st t ch
      by (auto simp: step_def fetch_def frontier_def split: if_splits fetched.splits)
  next
    case (Print u ls)
    then show ?thesis using st t ch
      by (auto simp: step_def print_block_def frontier_def Let_def split: if_splits)
  qed (use st t ch in \<open>auto simp: step_def acquire_def frontier_def split: if_splits\<close>)
qed

subsection \<open>Runs in pieces\<close>

lemma run_append_Some: "run w xs s = Some m \<Longrightarrow> run w (xs @ ys) s = run w ys m"
  by (simp add: run_append)

lemma notify_all_update:
  "notify_all (ps[t := q]) = (notify_all ps)[t := (if q = Waiting then Woken else q)]"
  by (simp add: notify_all_def map_update)

subsection \<open>Held URLs, and the run of a single worker\<close>

lemma holds_in_unfetched:
  "t < length ps \<Longrightarrow> u \<in> set (holds_url (ps ! t)) \<Longrightarrow> u \<in> set (unfetched ps)"
  unfolding unfetched_def using nth_mem[of t ps] by auto

lemma held_url_processed:
  assumes "run w sched (init n start) = Some s" and "t < length (threads s)"
    and "u \<in> set (holds_url (threads s ! t))"
  shows "u \<in> set (g_urls_already_processed s)"
proof -
  have "mset (unfetched (threads s)) \<subseteq># mset (opened (trace s)) + mset (unfetched (threads s))"
    by simp
  also have "\<dots> \<subseteq># mset (g_urls_already_processed s)"
    using fetch_inv_run[OF assms(1)] by (simp add: fetch_inv_def)
  finally have "set_mset (mset (unfetched (threads s))) \<subseteq> set_mset (mset (g_urls_already_processed s))"
    by (rule set_mset_mono)
  then show ?thesis using holds_in_unfetched[OF assms(2,3)] by auto
qed

lemma distinct_count_list: "distinct xs \<Longrightarrow> count_list xs x \<le> 1"
  by (induction xs) auto

lemma opened_distinct_run:
  assumes "run w sched (init n start) = Some s"
  shows "distinct (opened (trace s))"
proof -
  have q: "distinct (g_urls_already_processed s)"
    using queue_inv_run[OF assms] by (simp add: queue_inv_def)
  have "mset (opened (trace s)) \<subseteq># mset (opened (trace s)) + mset (unfetched (threads s))"
    by simp
  also have "\<dots> \<subseteq># mset (g_urls_already_processed s)"
    using fetch_inv_run[OF assms] by (simp add: fetch_inv_def)
  finally show ?thesis using q by (rule distinct_sub_mset)
qed

lemma step_length: "step w t s = Some s' \<Longrightarrow> length (threads s') = length (threads s)"
  by (cases "threads s ! t")
     (auto simp: step_def acquire_def check_def fetch_def publish_def print_block_def Let_def
        length_notify_all split: if_splits list.splits fetched.splits)

lemma single_worker_sched:
  "run w sched s = Some s' \<Longrightarrow> length (threads s) = 1 \<Longrightarrow> sched = replicate (length sched) 0"
proof (induction sched arbitrary: s)
  case Nil
  show ?case by simp
next
  case (Cons t sched)
  then obtain m where m: "step w t s = Some m" and r: "run w sched m = Some s'"
    by (auto split: option.splits)
  have "t < length (threads s)" using m by (rule step_thread_exists)
  then have t: "t = 0" using Cons.prems(2) by simp
  have "length (threads m) = 1" using step_length[OF m] Cons.prems(2) by simp
  from Cons.IH[OF r this] t show ?case by simp
qed

lemma finished_stuck:
  "threads s = [Finished] \<Longrightarrow> run w (replicate k 0) s = Some s' \<Longrightarrow> k = 0"
  by (cases k) (auto simp: step_def)

lemma single_worker_deterministic:
  assumes fin: "run w (replicate m 0) s0 = Some fin" "threads fin = [Finished]"
    and one: "length (threads s0) = 1"
    and r: "run w sched s0 = Some s" "threads s = [Finished]"
  shows "s = fin"
proof -
  define k where "k = length sched"
  have sched: "sched = replicate k 0"
    unfolding k_def using r(1) one by (rule single_worker_sched)
  show ?thesis
  proof (cases "k \<le> m")
    case True
    then have "replicate m (0::nat) = replicate k 0 @ replicate (m - k) 0"
      by (simp add: replicate_add[symmetric])
    then have "run w (replicate (m - k) 0) s = Some fin"
      using fin(1) run_append_Some[OF r(1)[unfolded sched], of "replicate (m - k) 0"] by simp
    then have "m - k = 0" using r(2) finished_stuck by blast
    then show ?thesis using \<open>run w (replicate (m - k) 0) s = Some fin\<close> by simp
  next
    case False
    then have "replicate k (0::nat) = replicate m 0 @ replicate (k - m) 0"
      by (simp add: replicate_add[symmetric])
    then have "run w (replicate (k - m) 0) fin = Some s"
      using r(1)[unfolded sched] run_append_Some[OF fin(1), of "replicate (k - m) 0"] by simp
    then have "k - m = 0" using fin(2) finished_stuck by blast
    then show ?thesis using False by simp
  qed
qed

subsection \<open>One worker, one page\<close>

lemma ten: "replicate 10 (0::nat) = [0, 0, 0, 0, 0, 0, 0, 0, 0, 0]"
  by (simp add: numeral_eq_Suc)

lemma worker_cycle:
  assumes "threads s = [Acquire]" and "g_url_condition_lock s = None" and "g_print_lock s = 1"
    and "g_urls_to_be_processed s = u # rest"
    and "\<not> request_raises w u" and "urlopen w u = Anchors hs"
    and "get_links_from_page_text (parse_url w) u hs = links"
    and "\<And>l. \<not> print_raises w l"
  shows "\<exists>s'. run w (replicate 10 0) s = Some s' \<and>
           threads s' = [Acquire] \<and> g_url_condition_lock s' = None \<and> g_print_lock s' = 1 \<and>
           g_urls_to_be_processed s' = add_links links (g_urls_already_processed s @ [u]) rest \<and>
           g_urls_already_processed s' = g_urls_already_processed s @ [u] \<and>
           g_num_threads_processing s' = g_num_threads_processing s \<and>
           g_all_done s' = g_all_done s \<and>
           stdout s' = stdout s @ page_block u links \<and>
           dequeued (trace s') = dequeued (trace s) @ [u]"
  unfolding ten using assms
  by (simp add: step_def acquire_def check_def fetch_def publish_def print_block_def
      notify_all_def Let_def takeWhile_all dequeued_append)

lemma worker_terminates:
  assumes "threads s = [Acquire]" and "g_url_condition_lock s = None"
    and "g_urls_to_be_processed s = []" and "\<not> g_all_done s"
    and "g_num_threads_processing s = 0"
  shows "run w [0, 0] s =
     Some (s\<lparr>g_all_done := True, g_url_condition_lock := None, threads := [Finished],
             trace := trace s @ [Notify_all 0]\<rparr>)"
  using assms by (simp add: step_def acquire_def check_def notify_all_def)

section \<open>The claim: lines 74-93\<close>

text \<open>
  C1: a worker at line 74 that finds the lock free runs the claim on its own in one of
  four ways, by the state of the frontier. If the queue holds a URL, four steps
  (acquire; pop, append and release; read of the counter; write of the counter) take the first URL off the queue, append
  it to the processed list, add one to the counter and leave the worker with that URL to
  fetch. If the queue is empty and \<open>g_all_done\<close> is set, two steps end the worker and
  change nothing else. If the queue is empty, \<open>g_all_done\<close> is not set and the counter is
  0, two steps set \<open>g_all_done\<close>, wake every thread inside \<open>wait\<close> and end the worker.
  Otherwise two steps leave the worker inside \<open>wait\<close> with the lock released and the
  frontier as it was; there it has no step, and once notified its next step takes the lock
  back and puts it at the top of the inner loop again.
\<close>

theorem claim_cases:
  assumes "t < length (threads s)" and "threads s ! t = Acquire"
    and "g_url_condition_lock s = None"
  shows "case g_urls_to_be_processed s of
      page_url # rest \<Rightarrow>
        run w [t, t, t, t] s =
          Some (s\<lparr>g_urls_to_be_processed := rest,
                  g_urls_already_processed := g_urls_already_processed s @ [page_url],
                  g_num_threads_processing := g_num_threads_processing s + 1,
                  g_url_condition_lock := None,
                  threads := (threads s)[t := Fetch page_url],
                  trace := trace s @ [Dequeue t page_url]\<rparr>)
    | [] \<Rightarrow>
        if g_all_done s then
          run w [t, t] s =
            Some (s\<lparr>g_url_condition_lock := None, threads := (threads s)[t := Finished]\<rparr>)
        else if g_num_threads_processing s = 0 then
          run w [t, t] s =
            Some (s\<lparr>g_all_done := True,
                    g_url_condition_lock := None,
                    threads := (notify_all (threads s))[t := Finished],
                    trace := trace s @ [Notify_all t]\<rparr>) \<and>
          Waiting \<notin> set ((notify_all (threads s))[t := Finished])
        else
          run w [t, t] s =
            Some (s\<lparr>g_url_condition_lock := None, threads := (threads s)[t := Waiting]\<rparr>) \<and>
          step w t (s\<lparr>g_url_condition_lock := None, threads := (threads s)[t := Waiting]\<rparr>)
            = None \<and>
          step w t (s\<lparr>g_url_condition_lock := None,
                        threads := notify_all ((threads s)[t := Waiting])\<rparr>) =
            Some (s\<lparr>g_url_condition_lock := Some t,
                    threads := (notify_all ((threads s)[t := Waiting]))[t := Check]\<rparr>)"
proof (cases "g_urls_to_be_processed s")
  case (Cons page_url rest)
  then show ?thesis using assms
    by (simp add: step_def acquire_def check_def)
next
  case Nil
  have nw: "Waiting \<notin> set ((notify_all (threads s))[t := Finished])"
  proof
    assume "Waiting \<in> set ((notify_all (threads s))[t := Finished])"
    then have "Waiting \<in> set (notify_all (threads s))" by (rule waiting_update) simp
    then show False by (simp add: no_waiting_notify_all)
  qed
  show ?thesis using Nil assms nw
    by (simp add: step_def acquire_def check_def length_notify_all nth_notify_all
        notify_all_update)
qed

theorem claim_cases_witness:
  "run chain_site [0, 0, 0, 0] (init 1 ''http://h/a'') =
     Some ((init 1 ''http://h/a'')
       \<lparr>g_urls_to_be_processed := [],
        g_urls_already_processed := [''http://h/a''],
        g_num_threads_processing := 1,
        g_url_condition_lock := None,
        threads := [Fetch ''http://h/a''],
        trace := [Dequeue 0 ''http://h/a'']\<rparr>) \<and>
   run chain_site (replicate 32 0) (init 2 ''http://h/a'') \<noteq> None \<and>
   g_all_done (the (run chain_site (replicate 32 0) (init 2 ''http://h/a''))) \<and>
   threads (the (run chain_site (replicate 32 0 @ [1, 1]) (init 2 ''http://h/a'')))
     = [Finished, Finished] \<and>
   run chain_site (replicate 30 0) (init 1 ''http://h/a'') \<noteq> None \<and>
   \<not> g_all_done (the (run chain_site (replicate 30 0) (init 1 ''http://h/a''))) \<and>
   g_all_done (the (run chain_site (replicate 30 0 @ [0, 0]) (init 1 ''http://h/a''))) \<and>
   threads (the (run chain_site (replicate 30 0 @ [0, 0]) (init 1 ''http://h/a''))) = [Finished] \<and>
   run chain_site [0, 0, 0, 0] (init 2 ''http://h/a'') \<noteq> None \<and>
   threads (the (run chain_site ([0, 0, 0, 0] @ [1, 1]) (init 2 ''http://h/a'')))
     = [Fetch ''http://h/a'', Waiting] \<and>
   step chain_site 1 (the (run chain_site ([0, 0, 0, 0] @ [1, 1]) (init 2 ''http://h/a''))) = None"
proof -
  \<comment> \<open>the queue holds a URL\<close>
  have a: "run chain_site [0, 0, 0, 0] (init 1 ''http://h/a'') =
     Some ((init 1 ''http://h/a'')
       \<lparr>g_urls_to_be_processed := [],
        g_urls_already_processed := [''http://h/a''],
        g_num_threads_processing := 1,
        g_url_condition_lock := None,
        threads := [Fetch ''http://h/a''],
        trace := [Dequeue 0 ''http://h/a'']\<rparr>)"
    using claim_cases[of 0 "init 1 ''http://h/a''" chain_site]
    by (simp add: init_def)
  \<comment> \<open>the queue is empty and \<open>g_all_done\<close> is set\<close>
  define s2 where "s2 = the (run chain_site (replicate 32 0) (init 2 ''http://h/a''))"
  have r2: "run chain_site (replicate 32 0) (init 2 ''http://h/a'') = Some s2"
    unfolding s2_def by code_simp
  have h2: "1 < length (threads s2)" "threads s2 ! 1 = Acquire" "g_url_condition_lock s2 = None"
    "g_urls_to_be_processed s2 = []" "g_all_done s2" "threads s2 = [Finished, Acquire]"
    unfolding s2_def by code_simp+
  have w2: "run chain_site [1, 1] s2 =
      Some (s2\<lparr>g_url_condition_lock := None, threads := (threads s2)[1 := Finished]\<rparr>)"
    using claim_cases[OF h2(1-3), of chain_site] h2(4,5) by simp
  have rr2: "run chain_site (replicate 32 0 @ [1, 1]) (init 2 ''http://h/a'') =
      Some (s2\<lparr>g_url_condition_lock := None, threads := (threads s2)[1 := Finished]\<rparr>)"
    by (simp only: run_append_Some[OF r2] w2)
  have b: "threads (the (run chain_site (replicate 32 0 @ [1, 1]) (init 2 ''http://h/a'')))
      = [Finished, Finished]"
    unfolding rr2 option.sel using h2(6) by simp
  \<comment> \<open>the queue is empty and no thread is working\<close>
  define s3 where "s3 = the (run chain_site (replicate 30 0) (init 1 ''http://h/a''))"
  have r3: "run chain_site (replicate 30 0) (init 1 ''http://h/a'') = Some s3"
    unfolding s3_def by code_simp
  have h3: "0 < length (threads s3)" "threads s3 ! 0 = Acquire" "g_url_condition_lock s3 = None"
    "g_urls_to_be_processed s3 = []" "\<not> g_all_done s3" "g_num_threads_processing s3 = 0"
    "threads s3 = [Acquire]"
    unfolding s3_def by code_simp+
  have w3: "run chain_site [0, 0] s3 =
      Some (s3\<lparr>g_all_done := True,
                g_url_condition_lock := None,
                threads := (notify_all (threads s3))[0 := Finished],
                trace := trace s3 @ [Notify_all 0]\<rparr>)"
    using claim_cases[OF h3(1-3), of chain_site] h3(4-6) by simp
  have rr3: "run chain_site (replicate 30 0 @ [0, 0]) (init 1 ''http://h/a'') =
      Some (s3\<lparr>g_all_done := True,
                g_url_condition_lock := None,
                threads := (notify_all (threads s3))[0 := Finished],
                trace := trace s3 @ [Notify_all 0]\<rparr>)"
    by (simp only: run_append_Some[OF r3] w3)
  have c: "g_all_done (the (run chain_site (replicate 30 0 @ [0, 0]) (init 1 ''http://h/a'')))"
    "threads (the (run chain_site (replicate 30 0 @ [0, 0]) (init 1 ''http://h/a''))) = [Finished]"
    unfolding rr3 option.sel using h3(7) by (simp_all add: notify_all_def)
  \<comment> \<open>the queue is empty and another thread is working\<close>
  define s4 where "s4 = the (run chain_site [0, 0, 0, 0] (init 2 ''http://h/a''))"
  have r4: "run chain_site [0, 0, 0, 0] (init 2 ''http://h/a'') = Some s4"
    unfolding s4_def by code_simp
  have h4: "1 < length (threads s4)" "threads s4 ! 1 = Acquire" "g_url_condition_lock s4 = None"
    "g_urls_to_be_processed s4 = []" "\<not> g_all_done s4" "g_num_threads_processing s4 \<noteq> 0"
    "threads s4 = [Fetch ''http://h/a'', Acquire]"
    unfolding s4_def by code_simp+
  have w4: "run chain_site [1, 1] s4 =
      Some (s4\<lparr>g_url_condition_lock := None, threads := (threads s4)[1 := Waiting]\<rparr>)"
    and b4: "step chain_site 1
        (s4\<lparr>g_url_condition_lock := None, threads := (threads s4)[1 := Waiting]\<rparr>) = None"
    using claim_cases[OF h4(1-3), of chain_site] h4(4-6) by simp_all
  have rr4: "run chain_site ([0, 0, 0, 0] @ [1, 1]) (init 2 ''http://h/a'') =
      Some (s4\<lparr>g_url_condition_lock := None, threads := (threads s4)[1 := Waiting]\<rparr>)"
    by (simp only: run_append_Some[OF r4] w4)
  have d: "threads (the (run chain_site ([0, 0, 0, 0] @ [1, 1]) (init 2 ''http://h/a'')))
      = [Fetch ''http://h/a'', Waiting]"
    "step chain_site 1 (the (run chain_site ([0, 0, 0, 0] @ [1, 1]) (init 2 ''http://h/a''))) = None"
    unfolding rr4 option.sel using b4 h4(7) by simp_all
  have ne: "run chain_site (replicate 32 0) (init 2 ''http://h/a'') \<noteq> None"
    "run chain_site (replicate 30 0) (init 1 ''http://h/a'') \<noteq> None"
    "run chain_site [0, 0, 0, 0] (init 2 ''http://h/a'') \<noteq> None"
    using r2 r3 r4 by simp_all
  have e: "g_all_done (the (run chain_site (replicate 32 0) (init 2 ''http://h/a'')))"
    "\<not> g_all_done (the (run chain_site (replicate 30 0) (init 1 ''http://h/a'')))"
    using h2(5) h3(5) unfolding s2_def s3_def by blast+
  show ?thesis using a b c d ne e by blast
qed

section \<open>The deduplicated queue\<close>

text \<open>
  C2: the publish section (lines 103-105) keeps what \<open>pending\<close> held, in order, and
  appends to it, once each, exactly the extracted links that are in neither \<open>visited\<close>
  nor \<open>pending\<close>. Its loop takes the links one by one: on no link it leaves \<open>pending\<close>
  as it is, and it appends a link exactly when the link is in neither \<open>visited\<close> nor
  \<open>pending\<close> as they are when its turn comes (the links before it already handled).
  Consequently, in every state a run reaches from the start, \<open>pending\<close> has no
  duplicates and shares no URL with \<open>visited\<close>.
\<close>

theorem publish_dedup:
  assumes "run w sched (init n start) = Some s"
  shows "distinct (g_urls_to_be_processed s) \<and>
         set (g_urls_to_be_processed s) \<inter> set (g_urls_already_processed s) = {} \<and>
         (\<exists>new. g_urls_to_be_processed (publish t page_url page_links s) =
                  g_urls_to_be_processed s @ new \<and>
                distinct new \<and>
                set new = {link \<in> set page_links.
                            link \<notin> set (g_urls_already_processed s) \<and>
                            link \<notin> set (g_urls_to_be_processed s)}) \<and>
         add_links [] already to_be = to_be \<and>
         add_links (link # rest) already to_be =
           add_links rest already
             (if link \<in> set already \<or> link \<in> set to_be then to_be else to_be @ [link])"
proof -
  have "queue_inv s" using assms by (rule queue_inv_run)
  then have "distinct (g_urls_to_be_processed s)"
    and "set (g_urls_to_be_processed s) \<inter> set (g_urls_already_processed s) = {}"
    by (simp_all add: queue_inv_def)
  moreover have "\<exists>new. g_urls_to_be_processed (publish t page_url page_links s) =
                  g_urls_to_be_processed s @ new \<and>
                distinct new \<and>
                set new = {link \<in> set page_links.
                            link \<notin> set (g_urls_already_processed s) \<and>
                            link \<notin> set (g_urls_to_be_processed s)}"
    using add_links_new[of page_links "g_urls_already_processed s" "g_urls_to_be_processed s"]
    by (simp add: publish_def Let_def)
  moreover have "add_links [] already to_be = to_be"
    by simp
  moreover have "add_links (link # rest) already to_be =
      add_links rest already
        (if link \<in> set already \<or> link \<in> set to_be then to_be else to_be @ [link])"
    by simp
  ultimately show ?thesis by blast
qed

theorem publish_dedup_witness:
  "run chain_site (replicate 16 0) (init 1 ''http://h/a'') \<noteq> None \<and>
   threads (the (run chain_site (replicate 16 0) (init 1 ''http://h/a'')))
     = [Publish ''http://h/b'' [''http://h/a'', ''http://h/c'']] \<and>
   g_urls_to_be_processed (the (run chain_site (replicate 16 0) (init 1 ''http://h/a''))) = [] \<and>
   g_urls_already_processed (the (run chain_site (replicate 16 0) (init 1 ''http://h/a'')))
     = [''http://h/a'', ''http://h/b''] \<and>
   g_urls_to_be_processed
     (publish 0 ''http://h/b'' [''http://h/a'', ''http://h/c'']
        (the (run chain_site (replicate 16 0) (init 1 ''http://h/a'')))) = [''http://h/c''] \<and>
   distinct (g_urls_to_be_processed
     (publish 0 ''http://h/b'' [''http://h/a'', ''http://h/c'']
        (the (run chain_site (replicate 16 0) (init 1 ''http://h/a''))))) \<and>
   set (g_urls_to_be_processed
     (publish 0 ''http://h/b'' [''http://h/a'', ''http://h/c'']
        (the (run chain_site (replicate 16 0) (init 1 ''http://h/a''))))) = {''http://h/c''}"
proof -
  define s where "s = the (run chain_site (replicate 16 0) (init 1 ''http://h/a''))"
  have r: "run chain_site (replicate 16 0) (init 1 ''http://h/a'') = Some s"
    unfolding s_def by code_simp
  have f: "threads s = [Publish ''http://h/b'' [''http://h/a'', ''http://h/c'']]"
    "g_urls_to_be_processed s = []"
    "g_urls_already_processed s = [''http://h/a'', ''http://h/b'']"
    "g_urls_to_be_processed (publish 0 ''http://h/b'' [''http://h/a'', ''http://h/c''] s)
       = [''http://h/c'']"
    unfolding s_def by code_simp+
  from publish_dedup[OF r, of 0 "''http://h/b''" "[''http://h/a'', ''http://h/c'']"]
  obtain new where n:
    "g_urls_to_be_processed (publish 0 ''http://h/b'' [''http://h/a'', ''http://h/c''] s)
       = g_urls_to_be_processed s @ new"
    "distinct new"
    "set new = {link \<in> set [''http://h/a'', ''http://h/c''].
       link \<notin> set (g_urls_already_processed s) \<and> link \<notin> set (g_urls_to_be_processed s)}"
    by blast
  have new: "g_urls_to_be_processed (publish 0 ''http://h/b'' [''http://h/a'', ''http://h/c''] s) = new"
    using n(1) f(2) by simp
  have d: "distinct (g_urls_to_be_processed
      (publish 0 ''http://h/b'' [''http://h/a'', ''http://h/c''] s))"
    using n(2) new by simp
  have "set new = {''http://h/c''}"
    unfolding n(3) f(2,3) by auto
  then have m: "set (g_urls_to_be_processed
      (publish 0 ''http://h/b'' [''http://h/a'', ''http://h/c''] s)) = {''http://h/c''}"
    using new by simp
  have ne: "run chain_site (replicate 16 0) (init 1 ''http://h/a'') \<noteq> None"
    using r by blast
  show ?thesis using ne f d m unfolding s_def by blast
qed

text \<open>
  C4: along every run from the start, the URLs dequeued by line 78 are pairwise
  different, and so are the URLs handed to \<open>urlopen\<close> by line 97: no URL is claimed
  twice, and none is fetched twice.
\<close>

theorem no_duplicate_claims:
  assumes "run w sched (init n start) = Some s"
  shows "distinct (dequeued (trace s)) \<and> distinct (opened (trace s))"
proof -
  have q: "distinct (g_urls_already_processed s)"
    using queue_inv_run[OF assms] by (simp add: queue_inv_def)
  have d: "dequeued (trace s) = g_urls_already_processed s"
    using assms by (rule dequeued_run)
  have "mset (opened (trace s)) \<subseteq># mset (opened (trace s)) + mset (unfetched (threads s))"
    by simp
  also have "\<dots> \<subseteq># mset (g_urls_already_processed s)"
    using fetch_inv_run[OF assms] by (simp add: fetch_inv_def)
  finally have "distinct (opened (trace s))" using q by (rule distinct_sub_mset)
  then show ?thesis using q d by simp
qed

theorem no_duplicate_claims_witness:
  "run fork_site (replicate 10 0 @ [0, 0, 0, 0, 1, 1, 1, 1, 1, 0]) (init 2 ''http://h/a'') \<noteq> None \<and>
   dequeued (trace (the (run fork_site (replicate 10 0 @ [0, 0, 0, 0, 1, 1, 1, 1, 1, 0])
     (init 2 ''http://h/a'')))) = [''http://h/a'', ''http://h/b'', ''http://h/c''] \<and>
   opened (trace (the (run fork_site (replicate 10 0 @ [0, 0, 0, 0, 1, 1, 1, 1, 1, 0])
     (init 2 ''http://h/a'')))) = [''http://h/a'', ''http://h/c'', ''http://h/b''] \<and>
   distinct (dequeued (trace (the (run fork_site (replicate 10 0 @ [0, 0, 0, 0, 1, 1, 1, 1, 1, 0])
     (init 2 ''http://h/a''))))) \<and>
   distinct (opened (trace (the (run fork_site (replicate 10 0 @ [0, 0, 0, 0, 1, 1, 1, 1, 1, 0])
     (init 2 ''http://h/a'')))))"
proof -
  have ne: "run fork_site (replicate 10 0 @ [0, 0, 0, 0, 1, 1, 1, 1, 1, 0]) (init 2 ''http://h/a'')
      \<noteq> None"
    by code_simp
  then obtain s where
    r: "run fork_site (replicate 10 0 @ [0, 0, 0, 0, 1, 1, 1, 1, 1, 0]) (init 2 ''http://h/a'') = Some s"
    by blast
  have d: "dequeued (trace (the (run fork_site (replicate 10 0 @ [0, 0, 0, 0, 1, 1, 1, 1, 1, 0])
      (init 2 ''http://h/a'')))) = [''http://h/a'', ''http://h/b'', ''http://h/c'']"
    by code_simp
  have f: "opened (trace (the (run fork_site (replicate 10 0 @ [0, 0, 0, 0, 1, 1, 1, 1, 1, 0])
      (init 2 ''http://h/a'')))) = [''http://h/a'', ''http://h/c'', ''http://h/b'']"
    by code_simp
  from no_duplicate_claims[OF r]
  have "distinct (dequeued (trace s))" and "distinct (opened (trace s))" by blast+
  then show ?thesis using ne d f r by simp
qed

section \<open>The counter of working threads\<close>

text \<open>
  C7, on the code: the counter does not stay at the number of working threads, nor at or
  above 0.

  The printing of lines 113-117 is inside the \<open>try\<close>, after the decrement of line 110.
  With one worker on the three-page site and a standard output that cannot encode the
  line of the first link, \<open>print\<close> raises, the handler of line 118 decrements once more,
  and after thirteen steps the worker is back at line 74 with the counter at \<open>-1\<close>. The
  semaphore was never released: eight steps later the worker stands at line 113 for the
  next page and has no step left.

  The increment of line 81 reads and writes the counter outside the lock. Under
  \<open>lost_update_schedule\<close> worker 1 writes the value it computed from a read made before
  worker 0's decrement: the counter is 2 while only worker 1 works on a page, and when
  both workers have finished their pages and claim again the counter is 1, the queue is
  empty, \<open>g_all_done\<close> is not set, and both are inside \<open>wait\<close> with nobody left to wake
  them.
\<close>

theorem active_count_broken:
  "run unprintable_link_site (replicate 13 0) (init 1 ''http://h/a'') \<noteq> None \<and>
   threads (the (run unprintable_link_site (replicate 13 0) (init 1 ''http://h/a''))) = [Acquire] \<and>
   g_num_threads_processing
     (the (run unprintable_link_site (replicate 13 0) (init 1 ''http://h/a''))) = - 1 \<and>
   g_print_lock (the (run unprintable_link_site (replicate 13 0) (init 1 ''http://h/a''))) = 0 \<and>
   \<not> active_count_as_stated
     (the (run unprintable_link_site (replicate 13 0) (init 1 ''http://h/a''))) \<and>
   run unprintable_link_site (replicate 21 0) (init 1 ''http://h/a'') \<noteq> None \<and>
   threads (the (run unprintable_link_site (replicate 21 0) (init 1 ''http://h/a'')))
     = [Print_acquire ''http://h/b'' [''http://h/a'', ''http://h/c'']] \<and>
   step unprintable_link_site 0
     (the (run unprintable_link_site (replicate 21 0) (init 1 ''http://h/a''))) = None \<and>
   run fork_site lost_update_prefix (init 2 ''http://h/a'') \<noteq> None \<and>
   threads (the (run fork_site lost_update_prefix (init 2 ''http://h/a'')))
     = [Print_acquire ''http://h/b'' [], Fetch ''http://h/c''] \<and>
   g_num_threads_processing (the (run fork_site lost_update_prefix (init 2 ''http://h/a''))) = 2 \<and>
   run fork_site lost_update_schedule (init 2 ''http://h/a'') \<noteq> None \<and>
   threads (the (run fork_site lost_update_schedule (init 2 ''http://h/a''))) = [Waiting, Waiting] \<and>
   g_num_threads_processing (the (run fork_site lost_update_schedule (init 2 ''http://h/a''))) = 1 \<and>
   g_urls_to_be_processed (the (run fork_site lost_update_schedule (init 2 ''http://h/a''))) = [] \<and>
   \<not> g_all_done (the (run fork_site lost_update_schedule (init 2 ''http://h/a''))) \<and>
   \<not> active_count_as_stated (the (run fork_site lost_update_schedule (init 2 ''http://h/a''))) \<and>
   step fork_site 0 (the (run fork_site lost_update_schedule (init 2 ''http://h/a''))) = None \<and>
   step fork_site 1 (the (run fork_site lost_update_schedule (init 2 ''http://h/a''))) = None"
  by code_simp

section \<open>Wake signals\<close>

text \<open>
  C9 as stated fails in its last part: line 107 tests whether the queue is non-empty
  after the insertions, not whether the insertions made it so. On the site where page
  \<open>/a\<close> links to \<open>/b\<close> and \<open>/c\<close>, the worker that publishes the empty link list of
  \<open>/b\<close> finds \<open>/c\<close> already queued, inserts nothing, and calls \<open>notify_all\<close>.
\<close>

theorem publish_signals_nonempty_queue_counterexample:
  "run fork_site (replicate 16 0) (init 1 ''http://h/a'') \<noteq> None \<and>
   threads (the (run fork_site (replicate 16 0) (init 1 ''http://h/a'')))
     = [Publish ''http://h/b'' []] \<and>
   g_urls_to_be_processed (the (run fork_site (replicate 16 0) (init 1 ''http://h/a'')))
     = [''http://h/c''] \<and>
   step fork_site 0 (the (run fork_site (replicate 16 0) (init 1 ''http://h/a''))) \<noteq> None \<and>
   g_urls_to_be_processed
     (the (step fork_site 0 (the (run fork_site (replicate 16 0) (init 1 ''http://h/a'')))))
     = [''http://h/c''] \<and>
   notifications (trace
     (the (step fork_site 0 (the (run fork_site (replicate 16 0) (init 1 ''http://h/a''))))))
     = Suc (notifications (trace
         (the (run fork_site (replicate 16 0) (init 1 ''http://h/a'')))))"
  by code_simp

text \<open>
  C9 as amended: in every state reached from the start, a step calls \<open>notify_all\<close>
  exactly when it is a publish section that leaves the queue non-empty (whether or not
  the queue was empty before, and whatever it inserted), or the claim that decides
  termination; and a thread inside \<open>wait\<close> is woken only by a publish section that
  turns the queue from empty to non-empty, or by the claim that decides termination.
\<close>

theorem wake_signals:
  assumes "run w sched (init n start) = Some s" and "step w t s = Some s'"
  shows "(notifications (trace s) < notifications (trace s') \<longleftrightarrow>
            (\<exists>u ls. threads s ! t = Publish u ls) \<and> g_urls_to_be_processed s' \<noteq> [] \<or>
            threads s ! t = Check \<and> g_urls_to_be_processed s = [] \<and> \<not> g_all_done s \<and>
              g_num_threads_processing s = 0) \<and>
         (\<forall>k. k < length (threads s) \<and> threads s ! k = Waiting \<and> threads s' ! k \<noteq> Waiting \<longrightarrow>
            (\<exists>u ls. threads s ! t = Publish u ls) \<and> g_urls_to_be_processed s = [] \<and>
              g_urls_to_be_processed s' \<noteq> [] \<or>
            threads s ! t = Check \<and> g_urls_to_be_processed s = [] \<and> \<not> g_all_done s \<and>
              g_num_threads_processing s = 0 \<and> g_all_done s')"
proof -
  have t: "t < length (threads s)" using assms(2) by (rule step_thread_exists)
  have w: "waiting_inv s" using assms(1) by (rule waiting_inv_run)
  have sent: "notifications (trace s) < notifications (trace s') \<longleftrightarrow>
            (\<exists>u ls. threads s ! t = Publish u ls) \<and> g_urls_to_be_processed s' \<noteq> [] \<or>
            threads s ! t = Check \<and> g_urls_to_be_processed s = [] \<and> \<not> g_all_done s \<and>
              g_num_threads_processing s = 0"
  proof (cases "threads s ! t")
    case Check
    then show ?thesis using assms(2) t
      by (auto simp: step_def check_def notifications_append split: list.splits if_splits)
  next
    case (Publish u ls)
    then show ?thesis using assms(2) t
      by (auto simp: step_def publish_def Let_def notifications_append)
  next
    case (Fetch u)
    then show ?thesis using assms(2) t
      by (auto simp: step_def fetch_def notifications_append split: fetched.splits if_splits)
  qed (use assms(2) t in \<open>auto simp: step_def acquire_def print_block_def Let_def
         split: if_splits\<close>)
  have woken: "(\<exists>u ls. threads s ! t = Publish u ls) \<and> g_urls_to_be_processed s = [] \<and>
              g_urls_to_be_processed s' \<noteq> [] \<or>
            threads s ! t = Check \<and> g_urls_to_be_processed s = [] \<and> \<not> g_all_done s \<and>
              g_num_threads_processing s = 0 \<and> g_all_done s'"
    if k: "k < length (threads s)" "threads s ! k = Waiting" "threads s' ! k \<noteq> Waiting" for k
  proof -
    have kt: "k \<noteq> t" using k(2) assms(2) t by (auto simp: step_def)
    have empty: "g_urls_to_be_processed s = []"
      using w k(1,2) nth_mem[OF k(1)] by (auto simp: waiting_inv_def)
    show ?thesis
    proof (cases "threads s ! t")
      case Check
      then show ?thesis using assms(2) t k kt empty
        by (auto simp: step_def check_def split: if_splits)
    next
      case (Publish u ls)
      then show ?thesis using assms(2) t k kt empty
        by (auto simp: step_def publish_def Let_def split: if_splits)
    next
      case (Fetch u)
      then show ?thesis using assms(2) t k kt
        by (auto simp: step_def fetch_def split: fetched.splits if_splits)
    qed (use assms(2) t k kt in \<open>auto simp: step_def acquire_def print_block_def Let_def
           split: if_splits\<close>)
  qed
  show ?thesis using sent woken by blast
qed

theorem wake_signals_witness:
  "run chain_site [0, 0, 0, 0, 1, 1, 0, 0] (init 2 ''http://h/a'') \<noteq> None \<and>
   step chain_site 0 (the (run chain_site [0, 0, 0, 0, 1, 1, 0, 0] (init 2 ''http://h/a''))) \<noteq> None \<and>
   threads (the (run chain_site [0, 0, 0, 0, 1, 1, 0, 0] (init 2 ''http://h/a'')))
     = [Publish ''http://h/a'' [''http://h/b''], Waiting] \<and>
   threads (the (step chain_site 0
       (the (run chain_site [0, 0, 0, 0, 1, 1, 0, 0] (init 2 ''http://h/a'')))))
     = [Publish_store ''http://h/a'' [''http://h/b''] 1, Woken] \<and>
   g_urls_to_be_processed (the (run chain_site [0, 0, 0, 0, 1, 1, 0, 0] (init 2 ''http://h/a''))) = [] \<and>
   g_urls_to_be_processed (the (step chain_site 0
       (the (run chain_site [0, 0, 0, 0, 1, 1, 0, 0] (init 2 ''http://h/a''))))) \<noteq> [] \<and>
   notifications (trace (the (run chain_site [0, 0, 0, 0, 1, 1, 0, 0] (init 2 ''http://h/a''))))
     < notifications (trace (the (step chain_site 0
         (the (run chain_site [0, 0, 0, 0, 1, 1, 0, 0] (init 2 ''http://h/a''))))))"
proof -
  define s where "s = the (run chain_site [0, 0, 0, 0, 1, 1, 0, 0] (init 2 ''http://h/a''))"
  define s' where "s' = the (step chain_site 0 s)"
  have r: "run chain_site [0, 0, 0, 0, 1, 1, 0, 0] (init 2 ''http://h/a'') = Some s"
    unfolding s_def by code_simp
  have st: "step chain_site 0 s = Some s'"
    unfolding s'_def s_def by code_simp
  have before: "threads s = [Publish ''http://h/a'' [''http://h/b''], Waiting]"
    unfolding s_def by code_simp
  have after: "threads s' = [Publish_store ''http://h/a'' [''http://h/b''] 1, Woken]"
    unfolding s'_def s_def by code_simp
  have k: "1 < length (threads s) \<and> threads s ! 1 = Waiting \<and> threads s' ! 1 \<noteq> Waiting"
    by (simp add: before after)
  have nc: "threads s ! 0 \<noteq> Check" by (simp add: before)
  from wake_signals[OF r st] k nc
  have q: "g_urls_to_be_processed s = [] \<and> g_urls_to_be_processed s' \<noteq> []"
    by blast
  have p: "(\<exists>u ls. threads s ! 0 = Publish u ls) \<and> g_urls_to_be_processed s' \<noteq> []"
    using q by (simp add: before)
  from wake_signals[OF r st] p
  have n: "notifications (trace s) < notifications (trace s')" by blast
  have "run chain_site [0, 0, 0, 0, 1, 1, 0, 0] (init 2 ''http://h/a'') \<noteq> None"
    and "step chain_site 0 s \<noteq> None"
    using r st by simp_all
  then show ?thesis using before after q n unfolding s'_def s_def by blast
qed

section \<open>The critical sections\<close>

text \<open>
  By \<open>frontier_mutation_sites\<close>, a step that changes one of the four shared fields is
  taken by the thread that holds the lock, or is the write of the increment of line 81.

  C3, on the code: the increment of \<open>g_num_threads_processing\<close> (line 81) comes after
  the release of line 80, so it is not in the critical section of the dequeue; the two
  decrements (lines 110 and 125) are. With two workers on the three-page site: worker 0
  takes the lock, dequeues the start URL and releases; the lock is free and the counter
  is still 0; the next two steps of worker 0 read the counter and write it while nobody
  holds the lock.
  If worker 1 claims in between, it finds the queue empty and the counter 0, sets
  \<open>g_all_done\<close> and returns, although worker 0 has not fetched the URL yet.
\<close>

theorem increment_outside_lock:
  "run chain_site [0, 0] (init 2 ''http://h/a'') \<noteq> None \<and>
   threads (the (run chain_site [0, 0] (init 2 ''http://h/a''))) = [Incr ''http://h/a'', Acquire] \<and>
   g_url_condition_lock (the (run chain_site [0, 0] (init 2 ''http://h/a''))) = None \<and>
   g_num_threads_processing (the (run chain_site [0, 0] (init 2 ''http://h/a''))) = 0 \<and>
   run chain_site [0, 0, 0] (init 2 ''http://h/a'') \<noteq> None \<and>
   threads (the (run chain_site [0, 0, 0] (init 2 ''http://h/a'')))
     = [Incr_store ''http://h/a'' 0, Acquire] \<and>
   g_url_condition_lock (the (run chain_site [0, 0, 0] (init 2 ''http://h/a''))) = None \<and>
   step chain_site 0 (the (run chain_site [0, 0, 0] (init 2 ''http://h/a''))) \<noteq> None \<and>
   g_num_threads_processing
     (the (step chain_site 0 (the (run chain_site [0, 0, 0] (init 2 ''http://h/a''))))) = 1 \<and>
   run chain_site [0, 0, 1, 1] (init 2 ''http://h/a'') \<noteq> None \<and>
   g_all_done (the (run chain_site [0, 0, 1, 1] (init 2 ''http://h/a''))) \<and>
   threads (the (run chain_site [0, 0, 1, 1] (init 2 ''http://h/a'')))
     = [Incr ''http://h/a'', Finished] \<and>
   opened (trace (the (run chain_site [0, 0, 1, 1] (init 2 ''http://h/a'')))) = []"
  by code_simp

section \<open>The failure path: lines 95-126\<close>

text \<open>
  A failure raised inside the \<open>try\<close> (lines 97-100) is caught. By \<open>handler_path\<close>, the
  worker that holds a dequeued URL whose request is built and whose fetch, decoding or
  link extraction raises takes, the lock being free, four steps that change nothing but
  the counter, which goes down by one, and its own position, which is back at line 74;
  the URL stays among the processed ones, never enters the queue again and is handed to
  \<open>urlopen\<close> at most once.
\<close>

lemma handler_path:
  assumes "run w sched (init n start) = Some s"
    and "t < length (threads s)" and "threads s ! t = Fetch page_url"
    and "\<not> request_raises w page_url"
    and "urlopen w page_url = FetchError \<or> urlopen w page_url = DecodeError \<or>
         urlopen w page_url = ParseError"
    and "g_url_condition_lock s = None"
  shows "run w [t, t, t, t] s =
           Some (s\<lparr>g_num_threads_processing := g_num_threads_processing s - 1,
                   g_url_condition_lock := None,
                   threads := (threads s)[t := Acquire],
                   trace := trace s @ [Urlopen t page_url]\<rparr>) \<and>
         page_url \<in> set (g_urls_already_processed s) \<and>
         (\<forall>sched' s'. run w sched' s = Some s' \<longrightarrow>
            page_url \<in> set (g_urls_already_processed s') \<and>
            page_url \<notin> set (g_urls_to_be_processed s') \<and>
            count_list (opened (trace s')) page_url \<le> 1)"
proof -
  have solo: "run w [t, t, t, t] s =
           Some (s\<lparr>g_num_threads_processing := g_num_threads_processing s - 1,
                   g_url_condition_lock := None,
                   threads := (threads s)[t := Acquire],
                   trace := trace s @ [Urlopen t page_url]\<rparr>)"
    using assms(2-6) by (auto simp: step_def fetch_def acquire_def)
  have here: "page_url \<in> set (g_urls_already_processed s)"
    using held_url_processed[OF assms(1,2)] assms(3) by simp
  have later: "page_url \<in> set (g_urls_already_processed s') \<and>
            page_url \<notin> set (g_urls_to_be_processed s') \<and>
            count_list (opened (trace s')) page_url \<le> 1"
    if r: "run w sched' s = Some s'" for sched' s'
  proof -
    have whole: "run w (sched @ sched') (init n start) = Some s'"
      using run_append_Some[OF assms(1), of sched'] r by simp
    have a: "page_url \<in> set (g_urls_already_processed s')"
      using processed_grows_run[OF r] here by blast
    have "queue_inv s'" using whole by (rule queue_inv_run)
    then have b: "page_url \<notin> set (g_urls_to_be_processed s')"
      using a by (auto simp: queue_inv_def)
    have c: "count_list (opened (trace s')) page_url \<le> 1"
      using opened_distinct_run[OF whole] by (rule distinct_count_list)
    show ?thesis using a b c by blast
  qed
  show ?thesis using solo here later by blast
qed

text \<open>
  C5, on the code: the handler does not cover every failure of the fetch. The request is
  built at line 95, before the \<open>try\<close>, and \<open>urllib.request.Request\<close> raises \<open>ValueError\<close>
  on a URL without a scheme. With two workers started on \<open>abc\<close>: worker 0 dequeues the
  URL, counts itself and is ended by the uncaught exception; the counter stays at 1 and
  is never decremented; worker 1 finds the queue empty and the counter not 0, and waits.
  No thread has a step left, and \<open>g_all_done\<close> is not set: the failure has ended one
  worker loop and blocked the other for ever.
\<close>

theorem request_failure_kills_worker:
  "request_raises no_scheme_site ''abc'' \<and>
   run no_scheme_site [0, 0, 0, 0, 0, 1, 1] (init 2 ''abc'') \<noteq> None \<and>
   threads (the (run no_scheme_site [0, 0, 0, 0] (init 2 ''abc''))) = [Fetch ''abc'', Acquire] \<and>
   threads (the (run no_scheme_site [0, 0, 0, 0, 0] (init 2 ''abc''))) = [Crashed, Acquire] \<and>
   threads (the (run no_scheme_site [0, 0, 0, 0, 0, 1, 1] (init 2 ''abc''))) = [Crashed, Waiting] \<and>
   g_num_threads_processing (the (run no_scheme_site [0, 0, 0, 0, 0, 1, 1] (init 2 ''abc''))) = 1 \<and>
   g_url_condition_lock (the (run no_scheme_site [0, 0, 0, 0, 0, 1, 1] (init 2 ''abc''))) = None \<and>
   \<not> g_all_done (the (run no_scheme_site [0, 0, 0, 0, 0, 1, 1] (init 2 ''abc''))) \<and>
   step no_scheme_site 0 (the (run no_scheme_site [0, 0, 0, 0, 0, 1, 1] (init 2 ''abc''))) = None \<and>
   step no_scheme_site 1 (the (run no_scheme_site [0, 0, 0, 0, 0, 1, 1] (init 2 ''abc''))) = None"
  by code_simp

section \<open>The three-page scenario with one worker\<close>

text \<open>
  C8: let \<open>A\<close>, \<open>B\<close> and \<open>C\<close> be three different URLs whose pages are fetched without
  failure, the links extracted from \<open>A\<close> being \<open>B\<close>, those from \<open>B\<close> being \<open>A\<close> and \<open>C\<close>,
  and none from \<open>C\<close>, and let \<open>print\<close> raise nothing. Then the run of one worker from
  \<open>A\<close> ends after 32 steps with the worker returned, having printed the block of \<open>A\<close>
  with \<open>B\<close>, the block of \<open>B\<close> with \<open>A\<close> and \<open>C\<close>, and the block of \<open>C\<close> alone, each link
  after two spaces; it has dequeued \<open>A\<close>, \<open>B\<close>, \<open>C\<close> in this order, three claims, and the
  fourth claim decides termination. Every schedule that brings the worker to its return
  ends in this same state.
\<close>

theorem chain_scenario:
  assumes distinct_pages: "A \<noteq> B" "A \<noteq> C" "B \<noteq> C"
    and requests: "\<not> request_raises w A" "\<not> request_raises w B" "\<not> request_raises w C"
    and page_A: "urlopen w A = Anchors anchors_A"
      "get_links_from_page_text (parse_url w) A anchors_A = [B]"
    and page_B: "urlopen w B = Anchors anchors_B"
      "get_links_from_page_text (parse_url w) B anchors_B = [A, C]"
    and page_C: "urlopen w C = Anchors anchors_C"
      "get_links_from_page_text (parse_url w) C anchors_C = []"
    and prints: "\<And>l. \<not> print_raises w l"
  shows "\<exists>fin. run w (replicate 32 0) (init 1 A) = Some fin \<and>
           threads fin = [Finished] \<and>
           stdout fin = [A, ''  '' @ B, B, ''  '' @ A, ''  '' @ C, C] \<and>
           dequeued (trace fin) = [A, B, C] \<and>
           g_urls_already_processed fin = [A, B, C] \<and>
           g_urls_to_be_processed fin = [] \<and>
           g_num_threads_processing fin = 0 \<and>
           g_all_done fin \<and>
           (\<forall>sched s. run w sched (init 1 A) = Some s \<and> threads s = [Finished] \<longrightarrow> s = fin)"
proof -
  have i: "threads (init 1 A) = [Acquire]" "g_url_condition_lock (init 1 A) = None"
    "g_print_lock (init 1 A) = 1" "g_urls_to_be_processed (init 1 A) = A # []"
    by (simp_all add: init_def)
  from worker_cycle[OF i requests(1) page_A prints]
  obtain s1 where r1: "run w (replicate 10 0) (init 1 A) = Some s1"
    and s1: "threads s1 = [Acquire]" "g_url_condition_lock s1 = None" "g_print_lock s1 = 1"
      "g_urls_to_be_processed s1 = B # []" "g_urls_already_processed s1 = [A]"
      "g_num_threads_processing s1 = 0" "\<not> g_all_done s1"
      "stdout s1 = [A, ''  '' @ B]" "dequeued (trace s1) = [A]"
    using distinct_pages by (auto simp: init_def page_block_def)
  from worker_cycle[OF s1(1-4) requests(2) page_B prints]
  obtain s2 where r2: "run w (replicate 10 0) s1 = Some s2"
    and s2: "threads s2 = [Acquire]" "g_url_condition_lock s2 = None" "g_print_lock s2 = 1"
      "g_urls_to_be_processed s2 = C # []" "g_urls_already_processed s2 = [A, B]"
      "g_num_threads_processing s2 = 0" "\<not> g_all_done s2"
      "stdout s2 = [A, ''  '' @ B, B, ''  '' @ A, ''  '' @ C]" "dequeued (trace s2) = [A, B]"
    using distinct_pages s1(5-9) by (auto simp: page_block_def)
  from worker_cycle[OF s2(1-4) requests(3) page_C prints]
  obtain s3 where r3: "run w (replicate 10 0) s2 = Some s3"
    and s3: "threads s3 = [Acquire]" "g_url_condition_lock s3 = None"
      "g_urls_to_be_processed s3 = []" "\<not> g_all_done s3" "g_num_threads_processing s3 = 0"
      "g_urls_already_processed s3 = [A, B, C]"
      "stdout s3 = [A, ''  '' @ B, B, ''  '' @ A, ''  '' @ C, C]" "dequeued (trace s3) = [A, B, C]"
    using s2(5-9) by (auto simp: page_block_def)
  define fin where "fin = s3\<lparr>g_all_done := True, g_url_condition_lock := None,
      threads := [Finished], trace := trace s3 @ [Notify_all 0]\<rparr>"
  have r4: "run w [0, 0] s3 = Some fin"
    unfolding fin_def using s3(1-5) by (rule worker_terminates)
  have split: "replicate 32 (0::nat) = replicate 10 0 @ replicate 10 0 @ replicate 10 0 @ [0, 0]"
    by (simp add: numeral_eq_Suc)
  have r: "run w (replicate 32 0) (init 1 A) = Some fin"
    unfolding split
    by (simp only: run_append_Some[OF r1] run_append_Some[OF r2] run_append_Some[OF r3] r4)
  have f: "threads fin = [Finished]"
    "stdout fin = [A, ''  '' @ B, B, ''  '' @ A, ''  '' @ C, C]"
    "dequeued (trace fin) = [A, B, C]" "g_urls_already_processed fin = [A, B, C]"
    "g_urls_to_be_processed fin = []" "g_num_threads_processing fin = 0" "g_all_done fin"
    using s3 by (simp_all add: fin_def dequeued_append)
  have one: "length (threads (init 1 A)) = 1" by (simp add: init_def)
  have unique: "s = fin" if "run w sched (init 1 A) = Some s" "threads s = [Finished]" for sched s
    using single_worker_deterministic[OF r f(1) one that] .
  show ?thesis using r f unique by blast
qed

theorem chain_scenario_witness:
  "urlopen chain_site ''http://h/a'' = Anchors [Some ''/b''] \<and>
   get_links_from_page_text (parse_url chain_site) ''http://h/a'' [Some ''/b''] = [''http://h/b''] \<and>
   urlopen chain_site ''http://h/b'' = Anchors [Some ''/a'', Some ''/c''] \<and>
   get_links_from_page_text (parse_url chain_site) ''http://h/b'' [Some ''/a'', Some ''/c'']
     = [''http://h/a'', ''http://h/c''] \<and>
   urlopen chain_site ''http://h/c'' = Anchors [] \<and>
   get_links_from_page_text (parse_url chain_site) ''http://h/c'' [] = [] \<and>
   run chain_site (replicate 32 0) (init 1 ''http://h/a'') \<noteq> None \<and>
   threads (the (run chain_site (replicate 32 0) (init 1 ''http://h/a''))) = [Finished] \<and>
   stdout (the (run chain_site (replicate 32 0) (init 1 ''http://h/a''))) =
     [''http://h/a'', ''  http://h/b'',
      ''http://h/b'', ''  http://h/a'', ''  http://h/c'',
      ''http://h/c''] \<and>
   dequeued (trace (the (run chain_site (replicate 32 0) (init 1 ''http://h/a'')))) =
     [''http://h/a'', ''http://h/b'', ''http://h/c'']"
proof -
  have d: "''http://h/a'' \<noteq> ''http://h/b''" "''http://h/a'' \<noteq> ''http://h/c''"
    "''http://h/b'' \<noteq> ''http://h/c''"
    by simp_all
  have q: "\<not> request_raises chain_site ''http://h/a''" "\<not> request_raises chain_site ''http://h/b''"
    "\<not> request_raises chain_site ''http://h/c''"
    by (simp_all add: chain_site_def)
  have a: "urlopen chain_site ''http://h/a'' = Anchors [Some ''/b'']"
    "get_links_from_page_text (parse_url chain_site) ''http://h/a'' [Some ''/b''] = [''http://h/b'']"
    by code_simp+
  have b: "urlopen chain_site ''http://h/b'' = Anchors [Some ''/a'', Some ''/c'']"
    "get_links_from_page_text (parse_url chain_site) ''http://h/b'' [Some ''/a'', Some ''/c'']
       = [''http://h/a'', ''http://h/c'']"
    by code_simp+
  have c: "urlopen chain_site ''http://h/c'' = Anchors []"
    "get_links_from_page_text (parse_url chain_site) ''http://h/c'' [] = []"
    by code_simp+
  have p: "\<not> print_raises chain_site l" for l
    by (simp add: chain_site_def)
  from chain_scenario[OF d q a b c p]
  obtain fin where r: "run chain_site (replicate 32 0) (init 1 ''http://h/a'') = Some fin"
    and f: "threads fin = [Finished]"
      "stdout fin = [''http://h/a'', ''  '' @ ''http://h/b'', ''http://h/b'',
         ''  '' @ ''http://h/a'', ''  '' @ ''http://h/c'', ''http://h/c'']"
      "dequeued (trace fin) = [''http://h/a'', ''http://h/b'', ''http://h/c'']"
    by blast
  have ne: "run chain_site (replicate 32 0) (init 1 ''http://h/a'') \<noteq> None"
    using r by blast
  have out: "stdout fin = [''http://h/a'', ''  http://h/b'', ''http://h/b'', ''  http://h/a'',
      ''  http://h/c'', ''http://h/c'']"
    using f(2) by simp
  have g: "threads (the (run chain_site (replicate 32 0) (init 1 ''http://h/a''))) = [Finished]"
    "stdout (the (run chain_site (replicate 32 0) (init 1 ''http://h/a''))) =
       [''http://h/a'', ''  http://h/b'', ''http://h/b'', ''  http://h/a'',
        ''  http://h/c'', ''http://h/c'']"
    "dequeued (trace (the (run chain_site (replicate 32 0) (init 1 ''http://h/a'')))) =
       [''http://h/a'', ''http://h/b'', ''http://h/c'']"
    unfolding r option.sel using f(1,3) out by blast+
  show ?thesis using a b c ne g by blast
qed

end
